theory Spec2Isabelle
  imports Complex_Main
begin

section \<open>Values compared by the search\<close>

text \<open>
  The repository holds the module \<open>my_custom_player.py\<close> in compiled form
  (\<open>my_custom_player.cpython-35.pyc\<close>); the listings below give the methods of its
  class \<open>CustomPlayer\<close> as the bytecode reads, without their docstrings.

  The search routines compare Python numbers: the integers returned by the liberty heuristics, the floats returned
  by \<open>state.utility\<close>, and the two bounds \<open>float("-inf")\<close> and \<open>float("inf")\<close>.
  Only comparison, \<open>min\<close>, \<open>max\<close> and multiplication by \<open>-1\<close> and \<open>1\<close> are applied to
  them, all of which are exact, so a value is a real number or one of the two infinities.
\<close>

datatype val = NegInf | Fin real | PosInf

instantiation val :: linorder
begin

fun less_eq_val :: "val \<Rightarrow> val \<Rightarrow> bool" where
  "less_eq_val NegInf y = True"
| "less_eq_val (Fin x) NegInf = False"
| "less_eq_val (Fin x) (Fin y) = (x \<le> y)"
| "less_eq_val (Fin x) PosInf = True"
| "less_eq_val PosInf NegInf = False"
| "less_eq_val PosInf (Fin y) = False"
| "less_eq_val PosInf PosInf = True"

definition less_val :: "val \<Rightarrow> val \<Rightarrow> bool" where
  "less_val x y = (x \<le> y \<and> \<not> y \<le> x)"

instance
proof
  fix x y z :: val
  show "(x < y) = (x \<le> y \<and> \<not> y \<le> x)"
    by (simp add: less_val_def)
  show "x \<le> x"
    by (cases x) simp_all
  show "x \<le> y \<Longrightarrow> y \<le> z \<Longrightarrow> x \<le> z"
    by (cases x; cases y; cases z) simp_all
  show "x \<le> y \<Longrightarrow> y \<le> x \<Longrightarrow> x = y"
    by (cases x; cases y) simp_all
  show "x \<le> y \<or> y \<le> x"
    by (cases x; cases y) auto
qed

end

text \<open>\<open>-1 * x\<close> on a Python number; \<open>1 * x\<close> is \<open>x\<close> itself.\<close>

fun neg_one_times :: "val \<Rightarrow> val" where
  "neg_one_times NegInf = PosInf"
| "neg_one_times (Fin x) = Fin (- x)"
| "neg_one_times PosInf = NegInf"

section \<open>The game environment and the player object\<close>

text \<open>
  The game state is supplied by the isolation library, which is not part of the
  repository's sources; the search code only calls its methods.  The record below
  collects the methods and attributes that \<open>CustomPlayer\<close> uses, as functions of
  the (immutable) state:
  \<^item> \<open>state.actions()\<close>, \<open>state.result(a)\<close>, \<open>state.terminal_test()\<close>,
    \<open>state.utility(player_id)\<close>, the attribute \<open>state.ply_count\<close>;
  \<^item> \<open>state.locs[i]\<close>, indexed by \<open>self.player_id\<close> and \<open>1 - self.player_id\<close>
    only (player ids are 0 and 1), and \<open>state.liberties(loc)\<close>;
  \<^item> \<open>actions_of\<close>: the call \<open>state.actions(i)\<close> with a player id as argument,
    which only \<open>custom_heuristic\<close> makes.
\<close>

record ('s, 'a, 'l) game =
  actions :: "'s \<Rightarrow> 'a list"
  result :: "'s \<Rightarrow> 'a \<Rightarrow> 's"
  terminal_test :: "'s \<Rightarrow> bool"
  utility :: "'s \<Rightarrow> int \<Rightarrow> val"
  ply_count :: "'s \<Rightarrow> int"
  locs :: "'s \<Rightarrow> int \<Rightarrow> 'l"
  liberties :: "'s \<Rightarrow> 'l \<Rightarrow> 'l list"
  actions_of :: "'s \<Rightarrow> int \<Rightarrow> 'l list"

text \<open>
  The player object: \<open>self.player_id\<close> and the action channel \<open>self.queue\<close>, whose
  content is the list of actions put on it so far.
\<close>

record 'a player =
  player_id :: int
  queue :: "'a list"

section \<open>Heuristic evaluators\<close>

text \<open>
  \<^verbatim>\<open>
  def score(self, state):
      own_loc = state.locs[self.player_id]
      opp_loc = state.locs[1 - self.player_id]
      own_liberties = state.liberties(own_loc)
      opp_liberties = state.liberties(opp_loc)
      return len(own_liberties) - len(opp_liberties)
  \<close>
\<close>

definition score :: "('s, 'a, 'l) game \<Rightarrow> 'a player \<Rightarrow> 's \<Rightarrow> val" where
  "score g self state =
     (let own_loc = locs g state (player_id self);
          opp_loc = locs g state (1 - player_id self);
          own_liberties = liberties g state own_loc;
          opp_liberties = liberties g state opp_loc
      in Fin (of_int (int (length own_liberties) - int (length opp_liberties))))"

text \<open>
  \<^verbatim>\<open>
  def score2(self, state):
      own_loc = state.locs[self.player_id]
      own_liberties = state.liberties(own_loc)
      return len(own_liberties)
  \<close>
\<close>

definition score2 :: "('s, 'a, 'l) game \<Rightarrow> 'a player \<Rightarrow> 's \<Rightarrow> val" where
  "score2 g self state =
     (let own_loc = locs g state (player_id self);
          own_liberties = liberties g state own_loc
      in Fin (of_int (int (length own_liberties))))"

text \<open>
  \<^verbatim>\<open>
  def custom_heuristic(self, state):
      if state.terminal_test():
          return state.utility(self.player_id)
      score = 0.0
      move = state.locs[self.player_id]
      opp_moves = state.actions(1 - self.player_id)
      if move in opp_moves:
          score += 5
      own_moves = len(state.actions(self.player_id))
      opp_moves = len(state.actions(1 - self.player_id))
      score += int(own_moves - opp_moves)
      return score
  \<close>
  The only arithmetic is the addition of small integers to \<open>0.0\<close> and a subtraction of
  two list lengths; there is no division.
\<close>

definition custom_heuristic :: "('s, 'a, 'l) game \<Rightarrow> 'a player \<Rightarrow> 's \<Rightarrow> val" where
  "custom_heuristic g self state =
     (if terminal_test g state then utility g state (player_id self)
      else
        (let score0 = (0 :: real);
             move = locs g state (player_id self);
             opp_moves = actions_of g state (1 - player_id self);
             score1 = (if move \<in> set opp_moves then score0 + 5 else score0);
             own_moves = int (length (actions_of g state (player_id self)));
             opp_moves = int (length (actions_of g state (1 - player_id self)))
         in Fin (score1 + of_int (own_moves - opp_moves))))"

section \<open>Minimax with alpha-beta pruning\<close>

text \<open>
  \<^verbatim>\<open>
  def min_value(self, state, alpha, beta, depth):
      if state.terminal_test():
          return state.utility(self.player_id)
      if depth <= 0:
          return self.score(state)
      v = float("inf")
      for a in state.actions():
          v = min(v, self.max_value(state.result(a), alpha, beta, depth - 1))
          if v <= alpha:
              return v
          beta = min(beta, v)
      return v

  def max_value(self, state, alpha, beta, depth):
      if state.terminal_test():
          return state.utility(self.player_id)
      if depth <= 0:
          return self.score(state)
      v = float("-inf")
      for a in state.actions():
          v = max(v, self.min_value(state.result(a), alpha, beta, depth - 1))
          if v >= beta:
              return v
          alpha = max(alpha, v)
      return v
  \<close>
  Each \<open>for\<close> loop is a function of the actions still to visit and of the loop's
  variables (\<open>alpha\<close> or \<open>beta\<close> and \<open>v\<close>); \<open>depth\<close> is a Python integer.
\<close>

function max_value :: "('s, 'a, 'l) game \<Rightarrow> 'a player \<Rightarrow> 's \<Rightarrow> val \<Rightarrow> val \<Rightarrow> int \<Rightarrow> val"
  and max_value_loop ::
    "('s, 'a, 'l) game \<Rightarrow> 'a player \<Rightarrow> 's \<Rightarrow> val \<Rightarrow> val \<Rightarrow> int \<Rightarrow> 'a list \<Rightarrow> val \<Rightarrow> val"
  and min_value :: "('s, 'a, 'l) game \<Rightarrow> 'a player \<Rightarrow> 's \<Rightarrow> val \<Rightarrow> val \<Rightarrow> int \<Rightarrow> val"
  and min_value_loop ::
    "('s, 'a, 'l) game \<Rightarrow> 'a player \<Rightarrow> 's \<Rightarrow> val \<Rightarrow> val \<Rightarrow> int \<Rightarrow> 'a list \<Rightarrow> val \<Rightarrow> val"
where
  "max_value g self state alpha beta depth =
     (if terminal_test g state then utility g state (player_id self)
      else if depth \<le> 0 then score g self state
      else max_value_loop g self state alpha beta depth (actions g state) NegInf)"
| "max_value_loop g self state alpha beta depth [] v = v"
| "max_value_loop g self state alpha beta depth (a # as) v =
     (let v' = max v (min_value g self (result g state a) alpha beta (depth - 1))
      in if v' \<ge> beta then v'
         else max_value_loop g self state (max alpha v') beta depth as v')"
| "min_value g self state alpha beta depth =
     (if terminal_test g state then utility g state (player_id self)
      else if depth \<le> 0 then score g self state
      else min_value_loop g self state alpha beta depth (actions g state) PosInf)"
| "min_value_loop g self state alpha beta depth [] v = v"
| "min_value_loop g self state alpha beta depth (a # as) v =
     (let v' = min v (max_value g self (result g state a) alpha beta (depth - 1))
      in if v' \<le> alpha then v'
         else min_value_loop g self state alpha (min beta v') depth as v')"
  by pat_completeness auto

text \<open>
  Termination: a call of \<open>max_value\<close> or \<open>min_value\<close> enters its loop only when
  \<open>depth > 0\<close>, the loop calls the other function with \<open>depth - 1\<close>, and each round of
  the loop has one action less to visit.
\<close>

termination
  apply (relation "inv_image (less_than <*lex*> less_than)
     (\<lambda>x. case x of
        Inl (Inl (g, self, s, al, be, d)) \<Rightarrow> (2 * nat d, 0)
      | Inl (Inr (g, self, s, al, be, d, as, v)) \<Rightarrow> (2 * nat (d - 1) + 1, length as)
      | Inr (Inl (g, self, s, al, be, d)) \<Rightarrow> (2 * nat d, 0)
      | Inr (Inr (g, self, s, al, be, d, as, v)) \<Rightarrow> (2 * nat (d - 1) + 1, length as))")
  apply auto
  done

text \<open>
  The drivers return an action of the game or the sentinel \<open>(-1, -1)\<close>, a tuple that
  is no action of the game.
\<close>

datatype 'a move = Sentinel | Action 'a

text \<open>
  \<^verbatim>\<open>
  def alpha_beta_search(self, state, depth=3):
      alpha = float("-inf")
      beta = float("inf")
      best_score = float("-inf")
      best_move = (-1,-1)
      for a in state.actions():
          v = self.min_value(state.result(a), alpha, beta, depth - 1)
          alpha = max(alpha, v)
          if v >= best_score:
              best_score = v
              best_move = a
      return best_move
  \<close>
\<close>

fun alpha_beta_search_loop ::
  "('s, 'a, 'l) game \<Rightarrow> 'a player \<Rightarrow> 's \<Rightarrow> int \<Rightarrow> 'a list \<Rightarrow> val \<Rightarrow> val \<Rightarrow> val \<Rightarrow> 'a move
     \<Rightarrow> 'a move" where
  "alpha_beta_search_loop g self state depth [] alpha beta best_score best_move = best_move"
| "alpha_beta_search_loop g self state depth (a # as) alpha beta best_score best_move =
     (let v = min_value g self (result g state a) alpha beta (depth - 1);
          alpha' = max alpha v
      in if v \<ge> best_score
         then alpha_beta_search_loop g self state depth as alpha' beta v (Action a)
         else alpha_beta_search_loop g self state depth as alpha' beta best_score best_move)"

definition alpha_beta_search :: "('s, 'a, 'l) game \<Rightarrow> 'a player \<Rightarrow> 's \<Rightarrow> int \<Rightarrow> 'a move" where
  "alpha_beta_search g self state depth =
     alpha_beta_search_loop g self state depth (actions g state) NegInf PosInf NegInf Sentinel"

section \<open>The driver named NegamaxAlphaBeta\<close>

text \<open>
  \<^verbatim>\<open>
  def NegamaxAlphaBeta(self, state, depth=3):
      alpha = float("-inf")
      beta = float("inf")
      best_score = float("-inf")
      best_move = (-1,-1)
      if depth == 0 or state.terminal_test():
          return state.utility(self.player_id)
      for a in state.actions():
          v = 1 * self.min_value(state.result(a), -1 * alpha, -1 * beta, depth - 1)
          alpha = max(alpha, v)
          if v >= best_score:
              best_score = v
              best_move = a
          if alpha >= beta:
              break
      return best_move
  \<close>
  The function is not recursive: it calls \<open>min_value\<close>.  It returns a number when the
  depth is zero or the state is terminal, and a move otherwise.
\<close>

datatype 'a negamax_result = Number val | Move "'a move"

fun NegamaxAlphaBeta_loop ::
  "('s, 'a, 'l) game \<Rightarrow> 'a player \<Rightarrow> 's \<Rightarrow> int \<Rightarrow> 'a list \<Rightarrow> val \<Rightarrow> val \<Rightarrow> val \<Rightarrow> 'a move
     \<Rightarrow> 'a move" where
  "NegamaxAlphaBeta_loop g self state depth [] alpha beta best_score best_move = best_move"
| "NegamaxAlphaBeta_loop g self state depth (a # as) alpha beta best_score best_move =
     (let v = min_value g self (result g state a) (neg_one_times alpha) (neg_one_times beta)
                (depth - 1);
          alpha' = max alpha v;
          best_score' = (if v \<ge> best_score then v else best_score);
          best_move' = (if v \<ge> best_score then Action a else best_move)
      in if alpha' \<ge> beta then best_move'
         else NegamaxAlphaBeta_loop g self state depth as alpha' beta best_score' best_move')"

definition NegamaxAlphaBeta ::
  "('s, 'a, 'l) game \<Rightarrow> 'a player \<Rightarrow> 's \<Rightarrow> int \<Rightarrow> 'a negamax_result" where
  "NegamaxAlphaBeta g self state depth =
     (if depth = 0 \<or> terminal_test g state then Number (utility g state (player_id self))
      else Move (NegamaxAlphaBeta_loop g self state depth (actions g state)
                   NegInf PosInf NegInf Sentinel))"

section \<open>Unpruned minimax, as the specification describes it\<close>

text \<open>
  The specification compares the pruned search with an unpruned exhaustive minimax
  search over the same tree to the same depth.  The definitions of this section follow
  the specification's words and are no part of the program: the value of a maximising
  (minimising) node is the maximum (minimum) of the values of all its children, with
  the same cut-off tests as \<open>max_value\<close> and \<open>min_value\<close>, and the decision keeps the
  root action whose value is strictly greatest, or the sentinel.
\<close>

fun maxs :: "val list \<Rightarrow> val" where
  "maxs [] = NegInf"
| "maxs (x # xs) = max x (maxs xs)"

fun mins :: "val list \<Rightarrow> val" where
  "mins [] = PosInf"
| "mins (x # xs) = min x (mins xs)"

function minimax_max :: "('s, 'a, 'l) game \<Rightarrow> 'a player \<Rightarrow> 's \<Rightarrow> int \<Rightarrow> val"
  and minimax_min :: "('s, 'a, 'l) game \<Rightarrow> 'a player \<Rightarrow> 's \<Rightarrow> int \<Rightarrow> val"
where
  "minimax_max g self state depth =
     (if terminal_test g state then utility g state (player_id self)
      else if depth \<le> 0 then score g self state
      else maxs (map (\<lambda>a. minimax_min g self (result g state a) (depth - 1)) (actions g state)))"
| "minimax_min g self state depth =
     (if terminal_test g state then utility g state (player_id self)
      else if depth \<le> 0 then score g self state
      else mins (map (\<lambda>a. minimax_max g self (result g state a) (depth - 1)) (actions g state)))"
  by pat_completeness auto

termination
  by (relation "measure (\<lambda>x. case x of
        Inl (g, self, s, d) \<Rightarrow> nat d
      | Inr (g, self, s, d) \<Rightarrow> nat d)") auto

fun minimax_search_loop ::
  "('s, 'a, 'l) game \<Rightarrow> 'a player \<Rightarrow> 's \<Rightarrow> int \<Rightarrow> 'a list \<Rightarrow> val \<Rightarrow> 'a move \<Rightarrow> 'a move" where
  "minimax_search_loop g self state depth [] best_score best_move = best_move"
| "minimax_search_loop g self state depth (a # as) best_score best_move =
     (let v = minimax_min g self (result g state a) (depth - 1)
      in if v > best_score
         then minimax_search_loop g self state depth as v (Action a)
         else minimax_search_loop g self state depth as best_score best_move)"

definition minimax_search :: "('s, 'a, 'l) game \<Rightarrow> 'a player \<Rightarrow> 's \<Rightarrow> int \<Rightarrow> 'a move" where
  "minimax_search g self state depth =
     minimax_search_loop g self state depth (actions g state) NegInf Sentinel"

text \<open>
  The root driver of the pruned search as the specification words it: it evaluates each
  root action with \<open>min_value\<close>, tightens \<open>alpha\<close> after each, and keeps the action
  whose value is strictly greatest.  It differs from \<open>alpha_beta_search\<close> in the
  comparison only (\<open>>\<close> for \<open>>=\<close>).
\<close>

fun spec_alpha_beta_search_loop ::
  "('s, 'a, 'l) game \<Rightarrow> 'a player \<Rightarrow> 's \<Rightarrow> int \<Rightarrow> 'a list \<Rightarrow> val \<Rightarrow> val \<Rightarrow> val \<Rightarrow> 'a move
     \<Rightarrow> 'a move" where
  "spec_alpha_beta_search_loop g self state depth [] alpha beta best_score best_move = best_move"
| "spec_alpha_beta_search_loop g self state depth (a # as) alpha beta best_score best_move =
     (let v = min_value g self (result g state a) alpha beta (depth - 1);
          alpha' = max alpha v
      in if v > best_score
         then spec_alpha_beta_search_loop g self state depth as alpha' beta v (Action a)
         else spec_alpha_beta_search_loop g self state depth as alpha' beta best_score best_move)"

definition spec_alpha_beta_search ::
  "('s, 'a, 'l) game \<Rightarrow> 'a player \<Rightarrow> 's \<Rightarrow> int \<Rightarrow> 'a move" where
  "spec_alpha_beta_search g self state depth =
     spec_alpha_beta_search_loop g self state depth (actions g state) NegInf PosInf NegInf Sentinel"

section \<open>Concrete games for evaluation\<close>

text \<open>
  A finite game tree: a terminal position carries its utility for player 0 (player 1
  gets the negation, the game being zero-sum), an inner position lists its legal
  actions, in order, with the positions they lead to.
\<close>

datatype gtree = Terminal real | Inner "(nat \<times> gtree) list"

fun gtree_actions :: "gtree \<Rightarrow> nat list" where
  "gtree_actions (Terminal u) = []"
| "gtree_actions (Inner kids) = map fst kids"

fun gtree_result :: "gtree \<Rightarrow> nat \<Rightarrow> gtree" where
  "gtree_result (Terminal u) a = Terminal u"
| "gtree_result (Inner kids) a = (case map_of kids a of Some t \<Rightarrow> t | None \<Rightarrow> Inner kids)"

fun gtree_terminal :: "gtree \<Rightarrow> bool" where
  "gtree_terminal (Terminal u) = True"
| "gtree_terminal (Inner kids) = False"

fun gtree_utility :: "gtree \<Rightarrow> int \<Rightarrow> val" where
  "gtree_utility (Terminal u) p = Fin (if p = 0 then u else - u)"
| "gtree_utility (Inner kids) p = Fin 0"

definition tree_game :: "int \<Rightarrow> (gtree, nat, unit) game" where
  "tree_game ply =
     \<lparr>actions = gtree_actions, result = gtree_result, terminal_test = gtree_terminal,
      utility = gtree_utility, ply_count = (\<lambda>s. ply), locs = (\<lambda>s i. ()),
      liberties = (\<lambda>s l. []), actions_of = (\<lambda>s i. [])\<rparr>"

definition player0 :: "nat player" where
  "player0 = \<lparr>player_id = 0, queue = []\<rparr>"

text \<open>
  A position described by the two players' move counts only: player 0 stands on
  location 0 and player 1 on location 1; \<open>own\<close> and \<open>opp\<close> are the locations that
  player 0 and player 1 can move to.
\<close>

definition count_game :: "bool \<Rightarrow> int list \<Rightarrow> int list \<Rightarrow> (unit, nat, int) game" where
  "count_game over own opp =
     \<lparr>actions = (\<lambda>s. []), result = (\<lambda>s a. s), terminal_test = (\<lambda>s. over),
      utility = (\<lambda>s p. if p = 0 then PosInf else NegInf), ply_count = (\<lambda>s. 0),
      locs = (\<lambda>s i. i),
      liberties = (\<lambda>s l. if l = 0 then own else opp),
      actions_of = (\<lambda>s i. if i = 0 then own else opp)\<rparr>"

section \<open>Monte Carlo tree search\<close>

text \<open>
  \<open>my_custom_player.py\<close> starts with \<open>from mcts import *\<close>; the module \<open>mcts\<close>, which
  defines \<open>MCTS_Node\<close>, \<open>tree_policy\<close>, \<open>default_policy\<close>, \<open>backup\<close> and \<open>best_child\<close>,
  is not among the repository's sources.  Only the method \<open>CustomPlayer.mcts\<close> is:
  \<^verbatim>\<open>
  def mcts(self, state, iter_limit=200, FACTOR=1.2):
      root = MCTS_Node(state)
      for _ in range(iter_limit):
          child = tree_policy(root)
          if not child:
              continue
          reward = default_policy(child.state)
          backup(child, reward)
      idx = root.children.index(best_child(root))
      return root.children_actions[idx]
  \<close>
  The tree is a value; a node of it is referred to by the path of child positions that
  leads to it from the root, and the functions that mutate the tree return the new tree.
\<close>

datatype py_error = ValueError | IndexError

text \<open>
  Modelled from the spec: the class \<open>MCTS_Node\<close> of the missing module.  A tree node
  holds the state it represents, its child nodes in the order of their creation, the
  actions that led to them (\<open>mcts\<close> reads the attributes \<open>state\<close>, \<open>children\<close> and
  \<open>children_actions\<close>), a visit count and an accumulated reward total.
\<close>

datatype ('s, 'a) mcts_node =
  Node (node_state: 's) (children: "('s, 'a) mcts_node list") (children_actions: "'a list")
    (visit_count: nat) (reward_total: real)

text \<open>
  Modelled from the spec: the constructor call \<open>MCTS_Node(state)\<close>.  The new node has
  no children; by the data model's invariant a node to which no rollout has been
  attributed has visit count 1, and its reward total is 0.
\<close>

definition MCTS_Node :: "'s \<Rightarrow> ('s, 'a) mcts_node" where
  "MCTS_Node s = Node s [] [] 1 0"

fun node_at :: "('s, 'a) mcts_node \<Rightarrow> nat list \<Rightarrow> ('s, 'a) mcts_node" where
  "node_at n [] = n"
| "node_at n (i # path) = (if i < length (children n) then node_at (children n ! i) path else n)"

fun valid_path :: "('s, 'a) mcts_node \<Rightarrow> nat list \<Rightarrow> bool" where
  "valid_path n [] = True"
| "valid_path n (i # path) = (i < length (children n) \<and> valid_path (children n ! i) path)"

text \<open>The position of the first greatest element of a list, if it has one.\<close>

fun best_index :: "real list \<Rightarrow> nat option" where
  "best_index [] = None"
| "best_index (x # xs) =
     (case best_index xs of
        None \<Rightarrow> Some 0
      | Some j \<Rightarrow> if x \<ge> xs ! j then Some 0 else Some (Suc j))"

text \<open>
  Modelled from the spec: \<open>tree_policy\<close> of the missing module (selection and
  expansion).  The descent stops at a terminal state; at a node with an unexplored
  action it adds the child for the first such action and stops there; otherwise it
  continues in the existing child that maximises the upper-confidence score, the first
  one among equals.  The score is the parameter \<open>ucb\<close>, a function of the parent's visit
  count and of the child's visit count and reward total.  A node that is not terminal
  and has neither an unexplored action nor a child yields no node.
\<close>

definition select_child :: "(nat \<Rightarrow> nat \<Rightarrow> real \<Rightarrow> real) \<Rightarrow> ('s, 'a) mcts_node \<Rightarrow> nat option" where
  "select_child ucb n =
     best_index (map (\<lambda>c. ucb (visit_count n) (visit_count c) (reward_total c)) (children n))"

lemma best_index_less: "best_index xs = Some i \<Longrightarrow> i < length xs"
  by (induction xs arbitrary: i) (auto split: option.splits if_splits)

lemma select_child_less: "select_child ucb n = Some i \<Longrightarrow> i < length (children n)"
  using best_index_less [of "map (\<lambda>c. ucb (visit_count n) (visit_count c) (reward_total c)) (children n)" i]
  by (simp add: select_child_def)

lemma size_child_less: "i < length (children n) \<Longrightarrow> size (children n ! i) < size n"
proof (cases n)
  case (Node s cs acts v r)
  assume "i < length (children n)"
  then have "cs ! i \<in> set cs"
    using Node by simp
  then have "size (cs ! i) \<le> size_list size cs"
    by (simp add: size_list_estimation')
  then show ?thesis
    using Node by simp
qed

function tree_policy ::
  "('s, 'a, 'l) game \<Rightarrow> (nat \<Rightarrow> nat \<Rightarrow> real \<Rightarrow> real) \<Rightarrow> ('s, 'a) mcts_node
     \<Rightarrow> nat list option \<times> ('s, 'a) mcts_node" where
  "tree_policy g ucb n =
     (if terminal_test g (node_state n) then (Some [], n)
      else
        (case find (\<lambda>a. a \<notin> set (children_actions n)) (actions g (node_state n)) of
           Some a \<Rightarrow>
             (Some [length (children n)],
              Node (node_state n) (children n @ [MCTS_Node (result g (node_state n) a)])
                (children_actions n @ [a]) (visit_count n) (reward_total n))
         | None \<Rightarrow>
             (case select_child ucb n of
                None \<Rightarrow> (None, n)
              | Some i \<Rightarrow>
                  (case tree_policy g ucb (children n ! i) of
                     (path, c) \<Rightarrow>
                       (map_option (Cons i) path,
                        Node (node_state n) ((children n) [i := c]) (children_actions n)
                          (visit_count n) (reward_total n))))))"
  by pat_completeness auto

termination
  by (relation "measure (\<lambda>(g, ucb, n). size n)") (auto dest: select_child_less size_child_less)

declare tree_policy.simps [simp del]

text \<open>
  Modelled from the spec: \<open>backup\<close> of the missing module (backpropagation).  It walks
  from the expanded node up to the root, increments the visit count of each node on the
  way and adds the rollout's reward to its reward total, the sign of the reward being
  flipped at each level.  \<open>backup_up\<close> returns the updated node together with the reward
  that its parent receives.
\<close>

fun backup_up :: "nat list \<Rightarrow> real \<Rightarrow> ('s, 'a) mcts_node \<Rightarrow> ('s, 'a) mcts_node \<times> real" where
  "backup_up [] r n =
     (Node (node_state n) (children n) (children_actions n) (visit_count n + 1)
        (reward_total n + r), - r)"
| "backup_up (i # path) r n =
     (if i < length (children n)
      then (case backup_up path r (children n ! i) of
              (c, r') \<Rightarrow>
                (Node (node_state n) ((children n) [i := c]) (children_actions n)
                   (visit_count n + 1) (reward_total n + r'), - r'))
      else backup_up [] r n)"

definition backup :: "nat list \<Rightarrow> real \<Rightarrow> ('s, 'a) mcts_node \<Rightarrow> ('s, 'a) mcts_node" where
  "backup path r rootn = fst (backup_up path r rootn)"

text \<open>
  Modelled from the spec: \<open>best_child\<close> of the missing module, as the final action
  selection uses it: the root's child with the highest visit count, the first one among
  equals.  The node it returns is given by its position among the root's children;
  there is none when the root has no child.
\<close>

definition best_child :: "('s, 'a) mcts_node \<Rightarrow> nat option" where
  "best_child n = best_index (map (\<lambda>c. real (visit_count c)) (children n))"

text \<open>
  The loop of \<open>mcts\<close>.  \<open>default_policy\<close> plays random actions to the end of the game;
  its outcome is the parameter \<open>rollout\<close>, which gives the reward returned in iteration
  \<open>k\<close> for the state it starts from.
\<close>

fun mcts_loop ::
  "('s, 'a, 'l) game \<Rightarrow> (nat \<Rightarrow> nat \<Rightarrow> real \<Rightarrow> real) \<Rightarrow> (nat \<Rightarrow> 's \<Rightarrow> real) \<Rightarrow> nat list
     \<Rightarrow> ('s, 'a) mcts_node \<Rightarrow> ('s, 'a) mcts_node" where
  "mcts_loop g ucb rollout [] rootn = rootn"
| "mcts_loop g ucb rollout (k # ks) rootn =
     (case tree_policy g ucb rootn of
        (None, rootn') \<Rightarrow> mcts_loop g ucb rollout ks rootn'
      | (Some child, rootn') \<Rightarrow>
          (let reward = rollout k (node_state (node_at rootn' child))
           in mcts_loop g ucb rollout ks (backup child reward rootn')))"

text \<open>
  \<open>root.children.index(x)\<close> raises \<open>ValueError\<close> when \<open>x\<close> is not in the list, which is
  the case for whatever \<open>best_child\<close> returns when the root has no children; a fault
  raised by \<open>best_child\<close> itself leaves \<open>mcts\<close> in the same way.
\<close>

definition mcts ::
  "('s, 'a, 'l) game \<Rightarrow> (nat \<Rightarrow> nat \<Rightarrow> real \<Rightarrow> real) \<Rightarrow> (nat \<Rightarrow> 's \<Rightarrow> real) \<Rightarrow> 's \<Rightarrow> int
     \<Rightarrow> py_error + 'a" where
  "mcts g ucb rollout s iter_limit =
     (let rootn = mcts_loop g ucb rollout [0 ..< nat iter_limit] (MCTS_Node s)
      in case best_child rootn of
           None \<Rightarrow> Inl ValueError
         | Some idx \<Rightarrow>
             if idx < length (children_actions rootn) then Inr (children_actions rootn ! idx)
             else Inl IndexError)"

section \<open>Agent dispatch\<close>

text \<open>
  \<^verbatim>\<open>
  def get_action(self, state):
      import random
      if state.ply_count < 2:
          return self.queue.put(random.choice(state.actions()))
      best_move = []
      try:
          while True:
              move = self.queue.put(self.mcts(state))
              if move == None:
                  return best_move
              best_move = move
      except:
          return best_move
  \<close>
  \<open>random.choice(seq)\<close> raises \<open>IndexError\<close> on an empty sequence and returns
  \<open>seq[i]\<close> otherwise, where \<open>i\<close> is drawn below \<open>len(seq)\<close> by the random number
  generator; the draw is the parameter \<open>r\<close>.  \<open>self.queue.put\<close> appends to the channel
  and returns \<open>None\<close>, so the \<open>while\<close> loop returns in its first round.  The default
  value of \<open>iter_limit\<close>, with which \<open>get_action\<close> calls \<open>mcts\<close>, is a parameter.
\<close>

definition choice :: "nat \<Rightarrow> 'a list \<Rightarrow> py_error + 'a" where
  "choice r xs = (if xs = [] then Inl IndexError else Inr (xs ! (r mod length xs)))"

datatype py_value = PyNone | PyEmptyList

definition get_action ::
  "('s, 'a, 'l) game \<Rightarrow> (nat \<Rightarrow> nat \<Rightarrow> real \<Rightarrow> real) \<Rightarrow> (nat \<Rightarrow> 's \<Rightarrow> real) \<Rightarrow> int \<Rightarrow> nat
     \<Rightarrow> 'a player \<Rightarrow> 's \<Rightarrow> (py_error + py_value) \<times> 'a player" where
  "get_action g ucb rollout iter_limit r self state =
     (if ply_count g state < 2 then
        (case choice r (actions g state) of
           Inl e \<Rightarrow> (Inl e, self)
         | Inr a \<Rightarrow> (Inr PyNone, self\<lparr>queue := queue self @ [a]\<rparr>))
      else
        (case mcts g ucb rollout state iter_limit of
           Inl e \<Rightarrow> (Inr PyEmptyList, self)
         | Inr a \<Rightarrow> (Inr PyEmptyList, self\<lparr>queue := queue self @ [a]\<rparr>)))"

section \<open>Auxiliary definitions for the statements\<close>


text \<open>
  The values that \<open>min_value\<close> returns to the loop of \<open>alpha_beta_search\<close> for the
  root actions, in order, each computed with the \<open>alpha\<close> that its predecessors left.
\<close>

fun root_values ::
  "('s, 'a, 'l) game \<Rightarrow> 'a player \<Rightarrow> 's \<Rightarrow> int \<Rightarrow> val \<Rightarrow> val \<Rightarrow> 'a list \<Rightarrow> val list" where
  "root_values g self state depth alpha beta [] = []"
| "root_values g self state depth alpha beta (a # as) =
     (let v = min_value g self (result g state a) alpha beta (depth - 1)
      in v # root_values g self state depth (max alpha v) beta as)"

text \<open>
  What a search with the window \<open>(alpha, beta)\<close> guarantees about the value \<open>v\<close> it
  returns for a position of minimax value \<open>exact\<close>: a value at or below \<open>alpha\<close> is an
  upper bound, a value at or above \<open>beta\<close> is a lower bound, and a value strictly
  inside the window is exact.
\<close>

definition fail_soft :: "val \<Rightarrow> val \<Rightarrow> val \<Rightarrow> val \<Rightarrow> bool" where
  "fail_soft alpha beta exact v \<longleftrightarrow>
     (v \<le> alpha \<longrightarrow> exact \<le> v) \<and> (alpha < v \<and> v < beta \<longrightarrow> v = exact) \<and> (beta \<le> v \<longrightarrow> v \<le> exact)"

text \<open>
  Termination of a call.  The function package defines, for the four mutually
  recursive functions \<open>max_value\<close>, \<open>max_value_loop\<close>, \<open>min_value\<close> and
  \<open>min_value_loop\<close>, the domain predicate of their recursion: it holds for an argument
  exactly when every chain of recursive calls that starts there is finite.  The same
  holds for the loop of \<open>NegamaxAlphaBeta\<close>.
\<close>

definition max_value_terminates ::
  "('s, 'a, 'l) game \<Rightarrow> 'a player \<Rightarrow> 's \<Rightarrow> val \<Rightarrow> val \<Rightarrow> int \<Rightarrow> bool" where
  "max_value_terminates g self state alpha beta depth =
     max_value_max_value_loop_min_value_min_value_loop_dom
       (Inl (Inl (g, self, state, alpha, beta, depth)))"

definition min_value_terminates ::
  "('s, 'a, 'l) game \<Rightarrow> 'a player \<Rightarrow> 's \<Rightarrow> val \<Rightarrow> val \<Rightarrow> int \<Rightarrow> bool" where
  "min_value_terminates g self state alpha beta depth =
     max_value_max_value_loop_min_value_min_value_loop_dom
       (Inr (Inl (g, self, state, alpha, beta, depth)))"

definition NegamaxAlphaBeta_terminates ::
  "('s, 'a, 'l) game \<Rightarrow> 'a player \<Rightarrow> 's \<Rightarrow> int \<Rightarrow> bool" where
  "NegamaxAlphaBeta_terminates g self state depth =
     NegamaxAlphaBeta_loop_dom
       (g, self, state, depth, actions g state, NegInf, PosInf, NegInf, Sentinel)"

text \<open>
  The rollouts attributed to the node at path \<open>q\<close> in a run of the loop of \<open>mcts\<close>:
  their number, and the sum of their rewards as backpropagation signs them.  A rollout
  is attributed to the nodes on the path from the root to the node it started from.
\<close>

fun rollouts_attributed ::
  "('s, 'a, 'l) game \<Rightarrow> (nat \<Rightarrow> nat \<Rightarrow> real \<Rightarrow> real) \<Rightarrow> (nat \<Rightarrow> 's \<Rightarrow> real) \<Rightarrow> nat list
     \<Rightarrow> ('s, 'a) mcts_node \<Rightarrow> nat list \<Rightarrow> nat" where
  "rollouts_attributed g ucb rollout [] rootn q = 0"
| "rollouts_attributed g ucb rollout (k # ks) rootn q =
     (case tree_policy g ucb rootn of
        (None, rootn') \<Rightarrow> rollouts_attributed g ucb rollout ks rootn' q
      | (Some child, rootn') \<Rightarrow>
          (let reward = rollout k (node_state (node_at rootn' child))
           in (if take (length q) child = q then 1 else 0)
              + rollouts_attributed g ucb rollout ks (backup child reward rootn') q))"

fun reward_attributed ::
  "('s, 'a, 'l) game \<Rightarrow> (nat \<Rightarrow> nat \<Rightarrow> real \<Rightarrow> real) \<Rightarrow> (nat \<Rightarrow> 's \<Rightarrow> real) \<Rightarrow> nat list
     \<Rightarrow> ('s, 'a) mcts_node \<Rightarrow> nat list \<Rightarrow> real" where
  "reward_attributed g ucb rollout [] rootn q = 0"
| "reward_attributed g ucb rollout (k # ks) rootn q =
     (case tree_policy g ucb rootn of
        (None, rootn') \<Rightarrow> reward_attributed g ucb rollout ks rootn' q
      | (Some child, rootn') \<Rightarrow>
          (let reward = rollout k (node_state (node_at rootn' child))
           in (if take (length q) child = q
               then (- 1) ^ (length child - length q) * reward else 0)
              + reward_attributed g ucb rollout ks (backup child reward rootn') q))"

text \<open>Game trees used as concrete inputs.\<close>

definition pruned_tie_tree :: gtree where
  "pruned_tie_tree = Inner [(0, Terminal 5), (1, Inner [(0, Terminal 5), (1, Terminal 3)])]"

definition first_reply_tree :: gtree where
  "first_reply_tree =
     Inner [(0, Inner [(0, Terminal 5), (1, Terminal 1)]),
            (1, Inner [(0, Terminal 3), (1, Terminal 3)])]"

definition tie_tree :: gtree where
  "tie_tree = Inner [(0, Terminal 1), (1, Terminal 1)]"

definition one_move_tree :: gtree where
  "one_move_tree = Inner [(0, Terminal 1)]"

definition three_move_tree :: gtree where
  "three_move_tree = Inner [(0, Terminal 1), (1, Terminal 2), (2, Terminal 0)]"

section \<open>Properties\<close>

subsection \<open>Comparison of values\<close>

lemma less_val_simps [simp]:
  "NegInf < Fin x" "NegInf < PosInf" "Fin x < PosInf"
  "(Fin x < Fin y) = (x < y)"
  "\<not> v < NegInf" "\<not> PosInf < v"
  by (cases v; auto simp: less_val_def)+

subsection \<open>The values computed by the pruned search\<close>

lemma val_bounds [simp]: "NegInf \<le> x" "x \<le> PosInf"
  by (cases x; simp)+

lemma max_NegInf [simp]: "max NegInf x = x" "max x NegInf = x"
  by (simp_all add: max_def) (cases x; simp)+

lemma min_PosInf [simp]: "min PosInf x = x" "min x PosInf = x"
  by (simp_all add: min_def) (cases x; simp)+

lemma fail_soft_max_cut:
  assumes "alpha < beta" "v \<le> alpha" "fail_soft alpha beta m c" "beta \<le> max v c"
  shows "fail_soft alpha beta (max v (max m rest)) (max v c)"
  using assms unfolding fail_soft_def
  by (metis le_max_iff_disj linorder_not_less order_le_less_trans order_refl)

lemma fail_soft_max_continue:
  assumes ab: "alpha < beta" and va: "v \<le> alpha" and c: "fail_soft alpha beta m c"
    and nb: "\<not> beta \<le> max v c"
    and r: "fail_soft (max alpha (max v c)) beta (max (max v c) rest) r"
  shows "fail_soft alpha beta (max v (max m rest)) r"
proof (cases "c \<le> alpha")
  case True
  then have m: "m \<le> c"
    using c by (simp add: fail_soft_def)
  have a: "max alpha (max v c) = alpha"
    using True va by (simp add: max_def)
  have r': "fail_soft alpha beta (max (max v c) rest) r"
    using r a by simp
  have e: "max v (max m rest) \<le> max (max v c) rest"
    using m by (auto simp: le_max_iff_disj)
  have big: "alpha < r \<Longrightarrow> r \<le> max (max v c) rest \<Longrightarrow> r \<le> max v (max m rest)"
    using True va m by (auto simp: le_max_iff_disj)
  show ?thesis
    unfolding fail_soft_def
  proof (intro conjI impI)
    assume "r \<le> alpha"
    then have "max (max v c) rest \<le> r"
      using r' by (simp add: fail_soft_def)
    then show "max v (max m rest) \<le> r"
      using e by (rule order_trans [rotated])
  next
    assume *: "alpha < r \<and> r < beta"
    then have eq: "r = max (max v c) rest"
      using r' by (simp add: fail_soft_def)
    have le1: "r \<le> max v (max m rest)"
      using big * eq by simp
    have le2: "max v (max m rest) \<le> r"
      unfolding eq by (rule e)
    show "r = max v (max m rest)"
      using le1 le2 by (rule antisym)
  next
    assume "beta \<le> r"
    then have "r \<le> max (max v c) rest" and "alpha < r"
      using r' ab by (auto simp: fail_soft_def)
    then show "r \<le> max v (max m rest)"
      using big by simp
  qed
next
  case False
  then have ac: "alpha < c" by simp
  have cb: "c < beta"
    using nb by (auto simp: le_max_iff_disj)
  have cm: "c = m"
    using c ac cb by (simp add: fail_soft_def)
  have vle: "v \<le> c"
    by (rule order_trans [OF va less_imp_le [OF ac]])
  have vc: "max v c = c"
    using vle by (simp add: max_absorb2)
  have a: "max alpha (max v c) = c"
    using vc ac by (simp add: max_absorb2)
  have e: "max v (max m rest) = max c rest"
    using vc cm by (simp add: max.assoc [symmetric])
  have r': "fail_soft c beta (max c rest) r"
    using r a vc by simp
  show ?thesis
    unfolding fail_soft_def e
  proof (intro conjI impI)
    assume "r \<le> alpha"
    then have "r \<le> c"
      using ac by simp
    then show "max c rest \<le> r"
      using r' by (simp add: fail_soft_def)
  next
    assume *: "alpha < r \<and> r < beta"
    show "r = max c rest"
    proof (cases "c < r")
      case True
      then show ?thesis using r' * by (simp add: fail_soft_def)
    next
      case False
      then have "r \<le> c" by simp
      then have le2: "max c rest \<le> r"
        using r' by (simp add: fail_soft_def)
      have le1: "r \<le> max c rest"
        using \<open>r \<le> c\<close> by (simp add: le_max_iff_disj)
      show ?thesis
        using le1 le2 by (rule antisym)
    qed
  next
    assume "beta \<le> r"
    then show "r \<le> max c rest"
      using r' by (simp add: fail_soft_def)
  qed
qed


lemma fail_soft_min_cut:
  assumes "alpha < beta" "beta \<le> v" "fail_soft alpha beta m c" "min v c \<le> alpha"
  shows "fail_soft alpha beta (min v (min m rest)) (min v c)"
  using assms unfolding fail_soft_def
  by (metis linorder_not_less min_def min_le_iff_disj)

lemma fail_soft_min_continue:
  assumes ab: "alpha < beta" and vb: "beta \<le> v" and c: "fail_soft alpha beta m c"
    and nb: "\<not> min v c \<le> alpha"
    and r: "fail_soft alpha (min beta (min v c)) (min (min v c) rest) r"
  shows "fail_soft alpha beta (min v (min m rest)) r"
proof (cases "beta \<le> c")
  case True
  then have m: "c \<le> m"
    using c by (simp add: fail_soft_def)
  have b: "min beta (min v c) = beta"
    using True vb by (simp add: min_def)
  have r': "fail_soft alpha beta (min (min v c) rest) r"
    using r b by simp
  have e: "min (min v c) rest \<le> min v (min m rest)"
    using m by (auto simp: min_le_iff_disj)
  have big: "r < beta \<Longrightarrow> min (min v c) rest \<le> r \<Longrightarrow> min v (min m rest) \<le> r"
    using True vb m by (auto simp: min_le_iff_disj)
  show ?thesis
    unfolding fail_soft_def
  proof (intro conjI impI)
    assume "r \<le> alpha"
    then have "min (min v c) rest \<le> r" and "r < beta"
      using r' ab by (auto simp: fail_soft_def)
    then show "min v (min m rest) \<le> r"
      using big by simp
  next
    assume *: "alpha < r \<and> r < beta"
    then have eq: "r = min (min v c) rest"
      using r' by (simp add: fail_soft_def)
    have le1: "min v (min m rest) \<le> r"
      using big * eq by simp
    have le2: "r \<le> min v (min m rest)"
      unfolding eq by (rule e)
    show "r = min v (min m rest)"
      using le2 le1 by (rule antisym)
  next
    assume "beta \<le> r"
    then have "r \<le> min (min v c) rest"
      using r' by (simp add: fail_soft_def)
    then show "r \<le> min v (min m rest)"
      using e by (rule order_trans)
  qed
next
  case False
  then have cb: "c < beta" by simp
  have ac: "alpha < c"
    using nb by (auto simp: min_le_iff_disj)
  have cm: "c = m"
    using c ac cb by (simp add: fail_soft_def)
  have cle: "c \<le> v"
    by (rule order_trans [OF less_imp_le [OF cb] vb])
  have vc: "min v c = c"
    using cle by (simp add: min_absorb2)
  have b: "min beta (min v c) = c"
    using vc cb by (simp add: min_absorb2)
  have e: "min v (min m rest) = min c rest"
    using vc cm by (simp add: min.assoc [symmetric])
  have r': "fail_soft alpha c (min c rest) r"
    using r b vc by simp
  show ?thesis
    unfolding fail_soft_def e
  proof (intro conjI impI)
    assume "r \<le> alpha"
    then show "min c rest \<le> r"
      using r' by (simp add: fail_soft_def)
  next
    assume *: "alpha < r \<and> r < beta"
    show "r = min c rest"
    proof (cases "r < c")
      case True
      then show ?thesis using r' * by (simp add: fail_soft_def)
    next
      case False
      then have "c \<le> r" by simp
      then have le1: "r \<le> min c rest"
        using r' unfolding fail_soft_def by blast
      have le2: "min c rest \<le> r"
        using \<open>c \<le> r\<close> by (simp add: min_le_iff_disj)
      show ?thesis
        using le1 le2 by (rule antisym)
    qed
  next
    assume "beta \<le> r"
    then have "c \<le> r"
      using cb by simp
    then show "r \<le> min c rest"
      using r' unfolding fail_soft_def by blast
  qed
qed

text \<open>
  The defining equations of the four value functions are applied by hand in this
  subsection.
\<close>

declare max_value.simps [simp del] min_value.simps [simp del]
  minimax_max.simps [simp del] minimax_min.simps [simp del]

lemma fail_soft_refl: "fail_soft alpha beta x x"
  by (simp add: fail_soft_def)

lemma fail_soft_search:
  shows "alpha < beta \<Longrightarrow>
      fail_soft alpha beta (minimax_max g self state depth)
        (max_value g self state alpha beta depth)"
    and "alpha < beta \<Longrightarrow> v \<le> alpha \<Longrightarrow>
      fail_soft alpha beta
        (max v (maxs (map (\<lambda>a. minimax_min g self (result g state a) (depth - 1)) as)))
        (max_value_loop g self state alpha beta depth as v)"
    and "alpha < beta \<Longrightarrow>
      fail_soft alpha beta (minimax_min g self state depth)
        (min_value g self state alpha beta depth)"
    and "alpha < beta \<Longrightarrow> beta \<le> v \<Longrightarrow>
      fail_soft alpha beta
        (min v (mins (map (\<lambda>a. minimax_max g self (result g state a) (depth - 1)) as)))
        (min_value_loop g self state alpha beta depth as v)"
proof (induction g self state alpha beta depth and g self state alpha beta depth as v
    and g self state alpha beta depth and g self state alpha beta depth as v
    rule: max_value_max_value_loop_min_value_min_value_loop.induct)
  case (1 g self state alpha beta depth)
  then show ?case
    by (subst max_value.simps, subst minimax_max.simps) (simp add: fail_soft_refl)
next
  case (2 g self state alpha beta depth v)
  then show ?case
    by (simp add: fail_soft_refl)
next
  case (3 g self state alpha beta depth a as v)
  let ?c = "min_value g self (result g state a) alpha beta (depth - 1)"
  let ?m = "minimax_min g self (result g state a) (depth - 1)"
  let ?rest = "maxs (map (\<lambda>a. minimax_min g self (result g state a) (depth - 1)) as)"
  have c: "fail_soft alpha beta ?m ?c"
    using "3.IH"(1) "3.prems"(1) by simp
  show ?case
  proof (cases "beta \<le> max v ?c")
    case True
    then show ?thesis
      using fail_soft_max_cut [OF "3.prems"(1) "3.prems"(2) c True, of ?rest]
      by (simp add: Let_def)
  next
    case False
    have window: "max alpha (max v ?c) < beta"
      using False "3.prems"(1) by (simp add: not_le)
    have below: "max v ?c \<le> max alpha (max v ?c)"
      by (rule max.cobounded2)
    have "fail_soft (max alpha (max v ?c)) beta (max (max v ?c) ?rest)
            (max_value_loop g self state (max alpha (max v ?c)) beta depth as (max v ?c))"
      by (rule "3.IH"(2) [OF refl False window below])
    then show ?thesis
      using fail_soft_max_continue [OF "3.prems"(1) "3.prems"(2) c False, of ?rest] False
      by (simp add: Let_def)
  qed
next
  case (4 g self state alpha beta depth)
  then show ?case
    by (subst min_value.simps, subst minimax_min.simps) (simp add: fail_soft_refl)
next
  case (5 g self state alpha beta depth v)
  then show ?case
    by (simp add: fail_soft_refl)
next
  case (6 g self state alpha beta depth a as v)
  let ?c = "max_value g self (result g state a) alpha beta (depth - 1)"
  let ?m = "minimax_max g self (result g state a) (depth - 1)"
  let ?rest = "mins (map (\<lambda>a. minimax_max g self (result g state a) (depth - 1)) as)"
  have c: "fail_soft alpha beta ?m ?c"
    using "6.IH"(1) "6.prems"(1) by simp
  show ?case
  proof (cases "min v ?c \<le> alpha")
    case True
    then show ?thesis
      using fail_soft_min_cut [OF "6.prems"(1) "6.prems"(2) c True, of ?rest]
      by (simp add: Let_def)
  next
    case False
    have window: "alpha < min beta (min v ?c)"
      using False "6.prems"(1) by (simp add: not_le)
    have above: "min beta (min v ?c) \<le> min v ?c"
      by (rule min.cobounded2)
    have "fail_soft alpha (min beta (min v ?c)) (min (min v ?c) ?rest)
            (min_value_loop g self state alpha (min beta (min v ?c)) depth as (min v ?c))"
      by (rule "6.IH"(2) [OF refl False window above])
    then show ?thesis
      using fail_soft_min_continue [OF "6.prems"(1) "6.prems"(2) c False, of ?rest] False
      by (simp add: Let_def)
  qed
qed

text \<open>
  With the full window the pruned value functions return the minimax value, and the
  greatest of the values returned to the root driver is the minimax value of the root.
\<close>

lemma max_value_exact:
  "max_value g self state NegInf PosInf depth = minimax_max g self state depth"
  using fail_soft_search(1) [of NegInf PosInf g self state depth]
  unfolding fail_soft_def
  by (cases "max_value g self state NegInf PosInf depth"; cases "minimax_max g self state depth") simp_all


lemma min_value_exact:
  "min_value g self state NegInf PosInf depth = minimax_min g self state depth"
  using fail_soft_search(3) [of NegInf PosInf g self state depth]
  unfolding fail_soft_def
  by (cases "min_value g self state NegInf PosInf depth"; cases "minimax_min g self state depth") simp_all

lemma root_value_step:
  "max alpha (min_value g self state alpha PosInf depth) = max alpha (minimax_min g self state depth)"
proof (cases "alpha = PosInf")
  case True
  then show ?thesis
    by (simp add: max_absorb1)
next
  case False
  then have lt: "alpha < PosInf"
    by (cases alpha) simp_all
  let ?v = "min_value g self state alpha PosInf depth"
  let ?m = "minimax_min g self state depth"
  have fs: "fail_soft alpha PosInf ?m ?v"
    by (rule fail_soft_search(3) [OF lt])
  show ?thesis
  proof (cases "?v \<le> alpha")
    case True
    then have "?m \<le> ?v"
      using fs unfolding fail_soft_def by blast
    then have "?m \<le> alpha"
      using True by (rule order_trans)
    then show ?thesis
      using True by (simp add: max_absorb1)
  next
    case False
    then have av: "alpha < ?v" by simp
    have "?v = ?m"
    proof (cases "?v < PosInf")
      case True
      then show ?thesis
        using fs av unfolding fail_soft_def by blast
    next
      case False
      then have "PosInf \<le> ?v" by simp
      then have "?v \<le> ?m" and "?v = PosInf"
        using fs unfolding fail_soft_def by (blast, cases ?v) simp_all
      then show ?thesis
        by (cases ?m) simp_all
    qed
    then show ?thesis by simp
  qed
qed

lemma root_values_max:
  "max alpha (maxs (root_values g self state depth alpha PosInf as))
     = max alpha (maxs (map (\<lambda>a. minimax_min g self (result g state a) (depth - 1)) as))"
proof (induction as arbitrary: alpha)
  case Nil
  then show ?case by simp
next
  case (Cons a as)
  let ?v = "min_value g self (result g state a) alpha PosInf (depth - 1)"
  let ?m = "minimax_min g self (result g state a) (depth - 1)"
  let ?rest = "maxs (map (\<lambda>a. minimax_min g self (result g state a) (depth - 1)) as)"
  have "max alpha (maxs (root_values g self state depth alpha PosInf (a # as)))
      = max (max alpha ?v) (maxs (root_values g self state depth (max alpha ?v) PosInf as))"
    by (simp add: Let_def max.assoc)
  also have "\<dots> = max (max alpha ?v) ?rest"
    by (rule Cons.IH)
  also have "\<dots> = max (max alpha ?m) ?rest"
    by (simp only: root_value_step)
  finally show ?case
    by (simp add: max.assoc)
qed

lemma alpha_beta_search_best_score:
  "maxs (root_values g self state depth NegInf PosInf (actions g state))
     = maxs (map (\<lambda>a. minimax_min g self (result g state a) (depth - 1)) (actions g state))"
  using root_values_max [of NegInf g self state depth "actions g state"] by simp

text \<open>
  With the strict comparison of the specification the pruned driver returns the action
  of the unpruned search, at every state and depth.
\<close>

lemma root_value_above:
  assumes "alpha < min_value g self state alpha PosInf depth"
  shows "min_value g self state alpha PosInf depth = minimax_min g self state depth"
proof -
  let ?v = "min_value g self state alpha PosInf depth"
  let ?m = "minimax_min g self state depth"
  have lt: "alpha < PosInf"
    using assms by (cases alpha) simp_all
  have fs: "fail_soft alpha PosInf ?m ?v"
    by (rule fail_soft_search(3) [OF lt])
  show ?thesis
  proof (cases "?v < PosInf")
    case True
    then show ?thesis
      using fs assms unfolding fail_soft_def by blast
  next
    case False
    then have "PosInf \<le> ?v" by simp
    then have "?v \<le> ?m" and "?v = PosInf"
      using fs unfolding fail_soft_def by (blast, cases ?v) simp_all
    then show ?thesis
      by (cases ?m) simp_all
  qed
qed

lemma root_value_below:
  assumes "min_value g self state alpha PosInf depth \<le> alpha"
  shows "minimax_min g self state depth \<le> alpha"
proof (cases "alpha = PosInf")
  case True
  then show ?thesis by simp
next
  case False
  then have lt: "alpha < PosInf"
    by (cases alpha) simp_all
  have "fail_soft alpha PosInf (minimax_min g self state depth)
          (min_value g self state alpha PosInf depth)"
    by (rule fail_soft_search(3) [OF lt])
  then have "minimax_min g self state depth \<le> min_value g self state alpha PosInf depth"
    using assms unfolding fail_soft_def by blast
  then show ?thesis
    using assms by (rule order_trans)
qed

lemma spec_alpha_beta_search_loop_minimax:
  "spec_alpha_beta_search_loop g self state depth as alpha PosInf alpha best_move
     = minimax_search_loop g self state depth as alpha best_move"
proof (induction as arbitrary: alpha best_move)
  case Nil
  then show ?case by simp
next
  case (Cons a as)
  let ?v = "min_value g self (result g state a) alpha PosInf (depth - 1)"
  let ?m = "minimax_min g self (result g state a) (depth - 1)"
  show ?case
  proof (cases "alpha < ?v")
    case True
    then have eq: "?v = ?m"
      by (rule root_value_above)
    have a: "max alpha ?v = ?v"
      using True by (simp add: max_absorb2)
    have "spec_alpha_beta_search_loop g self state depth (a # as) alpha PosInf alpha best_move
        = spec_alpha_beta_search_loop g self state depth as ?v PosInf ?v (Action a)"
      using True a by (simp add: Let_def)
    also have "\<dots> = minimax_search_loop g self state depth as ?v (Action a)"
      by (rule Cons.IH)
    also have "\<dots> = minimax_search_loop g self state depth (a # as) alpha best_move"
      using True eq by (simp add: Let_def)
    finally show ?thesis .
  next
    case False
    then have le: "?v \<le> alpha" by simp
    then have m: "\<not> alpha < ?m"
      using root_value_below [OF le] by simp
    have a: "max alpha ?v = alpha"
      using le by (simp add: max_absorb1)
    have "spec_alpha_beta_search_loop g self state depth (a # as) alpha PosInf alpha best_move
        = spec_alpha_beta_search_loop g self state depth as alpha PosInf alpha best_move"
      using False a by (simp add: Let_def)
    also have "\<dots> = minimax_search_loop g self state depth as alpha best_move"
      by (rule Cons.IH)
    also have "\<dots> = minimax_search_loop g self state depth (a # as) alpha best_move"
      using m by (simp add: Let_def)
    finally show ?thesis .
  qed
qed

lemma spec_alpha_beta_search_minimax:
  "spec_alpha_beta_search g self state depth = minimax_search g self state depth"
  by (simp add: spec_alpha_beta_search_def minimax_search_def spec_alpha_beta_search_loop_minimax)

declare max_value.simps [simp] min_value.simps [simp]
  minimax_max.simps [simp] minimax_min.simps [simp]

subsection \<open>Alpha-beta search against unpruned minimax\<close>

text \<open>
  Claim C1 states that the value and the action of the pruned search equal those of an
  unpruned exhaustive minimax search.  The values do (\<open>max_value_exact\<close>,
  \<open>min_value_exact\<close>, \<open>alpha_beta_search_best_score\<close>), and with a strict
  comparison in the driver the action would (\<open>spec_alpha_beta_search_minimax\<close>).  The
  action of the code does not: in \<open>pruned_tie_tree\<close> the
  first root action leads to a terminal position of utility 5, the second to a position
  whose replies lead to utilities 5 and 3, so its minimax value is 3.  With
  \<open>alpha = 5\<close> from the first action, \<open>min_value\<close> on the second returns 5 after the
  first reply (\<open>v <= alpha\<close>), the driver accepts it because it tests \<open>v >= best_score\<close>,
  and \<open>alpha_beta_search\<close> returns the second action where minimax chooses the first.
\<close>

theorem alpha_beta_search_differs_from_minimax:
  "alpha_beta_search (tree_game 2) player0 pruned_tie_tree 3 = Action 1 \<and>
   minimax_search (tree_game 2) player0 pruned_tie_tree 3 = Action 0"
  by (simp add: alpha_beta_search_def minimax_search_def tree_game_def player0_def
      pruned_tie_tree_def Let_def)

subsection \<open>The driver named NegamaxAlphaBeta against alpha-beta search\<close>

text \<open>
  Claim C2 states that \<open>NegamaxAlphaBeta\<close> chooses the action that \<open>alpha_beta_search\<close>
  chooses.  It does not: \<open>NegamaxAlphaBeta\<close> calls \<open>min_value\<close> with the bounds
  \<open>-1 * alpha\<close> and \<open>-1 * beta\<close>, that is with \<open>alpha = inf\<close> for the first action, so
  \<open>min_value\<close> returns after the first reply.  In \<open>first_reply_tree\<close> the replies to
  the first action lead to utilities 5 and 1, those to the second to 3 and 3.
\<close>

theorem negamax_differs_from_alpha_beta:
  "NegamaxAlphaBeta (tree_game 2) player0 first_reply_tree 3 = Move (Action 0) \<and>
   alpha_beta_search (tree_game 2) player0 first_reply_tree 3 = Action 1"
  by (simp add: NegamaxAlphaBeta_def alpha_beta_search_def tree_game_def player0_def
      first_reply_tree_def Let_def)

subsection \<open>A root state without legal actions\<close>

lemma tree_policy_no_actions:
  "actions g (node_state n) = [] \<Longrightarrow> children n = [] \<Longrightarrow>
   tree_policy g ucb n = (if terminal_test g (node_state n) then Some [] else None, n)"
  by (subst tree_policy.simps) (simp add: select_child_def)

lemma backup_root_children:
  "children (backup [] r n) = children n \<and> node_state (backup [] r n) = node_state n"
  by (simp add: backup_def)

lemma mcts_loop_no_actions:
  "actions g (node_state n) = [] \<Longrightarrow> children n = [] \<Longrightarrow>
   children (mcts_loop g ucb rollout ks n) = []"
proof (induction ks arbitrary: n)
  case Nil
  then show ?case by simp
next
  case (Cons k ks)
  show ?case
  proof (cases "terminal_test g (node_state n)")
    case True
    have "children (mcts_loop g ucb rollout ks (backup [] (rollout k (node_state n)) n)) = []"
      using Cons.prems by (intro Cons.IH) (simp_all add: backup_root_children)
    then show ?thesis
      using True Cons.prems by (simp add: tree_policy_no_actions)
  next
    case False
    then show ?thesis
      using Cons by (simp add: tree_policy_no_actions)
  qed
qed

lemma mcts_no_actions:
  "actions g state = [] \<Longrightarrow> mcts g ucb rollout state iter_limit = Inl ValueError"
  using mcts_loop_no_actions [of g "MCTS_Node state" ucb rollout "[0 ..< nat iter_limit]"]
  by (simp add: mcts_def MCTS_Node_def best_child_def)

text \<open>
  Past the first ply, \<open>get_action\<close> catches the fault with its \<open>except\<close> clause: it
  returns the empty list \<open>best_move\<close> and puts nothing on the channel.
\<close>

lemma get_action_no_actions:
  "\<not> ply_count g state < 2 \<Longrightarrow> actions g state = [] \<Longrightarrow>
   get_action g ucb rollout iter_limit r self state = (Inr PyEmptyList, self)"
  by (simp add: get_action_def mcts_no_actions)

text \<open>
  Claim C3 states that on a root state without legal actions \<open>alpha_beta_search\<close>
  returns the sentinel and \<open>mcts\<close> signals that no move is available, neither raising
  a fault.  \<open>alpha_beta_search\<close> returns the sentinel.  \<open>mcts\<close> does not: the root
  never gets a child, and \<open>root.children.index(best_child(root))\<close> raises
  \<open>ValueError\<close>.
\<close>

theorem no_moves_degradation:
  "actions g state = [] \<Longrightarrow>
   alpha_beta_search g self state depth = Sentinel \<and>
   mcts g ucb rollout state iter_limit = Inl ValueError"
  by (simp add: alpha_beta_search_def mcts_no_actions)

theorem no_moves_degradation_witness:
  "actions (tree_game 2) (Terminal 1) = [] \<and>
   alpha_beta_search (tree_game 2) player0 (Terminal 1) 3 = Sentinel \<and>
   mcts (tree_game 2) (\<lambda>n m w. w) (\<lambda>k s. 1) (Terminal 1) 200 = (Inl ValueError :: py_error + nat)"
  using no_moves_degradation [of "tree_game 2" "Terminal 1" player0 3 "\<lambda>n m w. w" "\<lambda>k s. 1" 200]
  by (simp add: tree_game_def)

subsection \<open>Heuristics\<close>

text \<open>
  Claim C4: at a terminal state the aggressive heuristic \<open>custom_heuristic\<close> returns
  exactly \<open>state.utility(self.player_id)\<close>.
\<close>

theorem custom_heuristic_terminal:
  "terminal_test g state \<Longrightarrow> custom_heuristic g self state = utility g state (player_id self)"
  by (simp add: custom_heuristic_def)

theorem custom_heuristic_terminal_witness:
  "terminal_test (count_game True [1, 2] [3]) () \<and>
   custom_heuristic (count_game True [1, 2] [3]) player0 () = PosInf"
  using custom_heuristic_terminal [of "count_game True [1, 2] [3]" "()" player0]
  by (simp add: count_game_def player0_def)

text \<open>
  Claim C5: the liberty-difference heuristic \<open>score\<close> is antisymmetric under swapping
  the perspective.  The value for the player \<open>1 - player_id\<close> is the negation of the
  value for the player \<open>player_id\<close>, at every state.
\<close>

theorem score_antisymmetric:
  "score g (self\<lparr>player_id := 1 - player_id self\<rparr>) state = neg_one_times (score g self state)"
  by (simp add: score_def Let_def)

text \<open>
  The value of \<open>custom_heuristic\<close> at a state that is not terminal: the bonus 5 (when
  the player's location is among the opponent's moves) plus the difference of the two
  move counts.  The function performs no division, at any state.
\<close>

lemma custom_heuristic_value:
  "\<not> terminal_test g state \<Longrightarrow>
   custom_heuristic g self state =
     Fin ((if locs g state (player_id self) \<in> set (actions_of g state (1 - player_id self))
           then 5 else 0)
          + of_int (int (length (actions_of g state (player_id self)))
                    - int (length (actions_of g state (1 - player_id self)))))"
  by (simp add: custom_heuristic_def Let_def)



subsection \<open>Ties at the root\<close>

lemma length_root_values [simp]:
  "length (root_values g self state depth alpha beta as) = length as"
  by (induction as arbitrary: alpha) (simp_all add: Let_def)

lemma alpha_beta_search_loop_keep:
  "\<forall>j < length as. root_values g self state depth alpha beta as ! j < best_score \<Longrightarrow>
   alpha_beta_search_loop g self state depth as alpha beta best_score best_move = best_move"
proof (induction as arbitrary: alpha)
  case Nil
  then show ?case by simp
next
  case (Cons a as)
  let ?v = "min_value g self (result g state a) alpha beta (depth - 1)"
  have v: "?v < best_score"
    using Cons.prems [rule_format, of 0] by (simp add: Let_def)
  have rest: "\<forall>j < length as. root_values g self state depth (max alpha ?v) beta as ! j < best_score"
  proof (intro allI impI)
    fix j assume "j < length as"
    then show "root_values g self state depth (max alpha ?v) beta as ! j < best_score"
      using Cons.prems [rule_format, of "Suc j"] by (simp add: Let_def)
  qed
  show ?case
    using v Cons.IH [OF rest] by (simp add: Let_def not_le [symmetric])
qed

lemma alpha_beta_search_loop_last_max:
  "i < length as \<Longrightarrow>
   \<forall>j < length as. root_values g self state depth alpha beta as ! j
      \<le> root_values g self state depth alpha beta as ! i \<Longrightarrow>
   \<forall>j. i < j \<and> j < length as \<longrightarrow> root_values g self state depth alpha beta as ! j
      < root_values g self state depth alpha beta as ! i \<Longrightarrow>
   best_score \<le> root_values g self state depth alpha beta as ! i \<Longrightarrow>
   alpha_beta_search_loop g self state depth as alpha beta best_score best_move = Action (as ! i)"
proof (induction as arbitrary: i alpha best_score best_move)
  case Nil
  then show ?case by simp
next
  case (Cons a as)
  let ?v = "min_value g self (result g state a) alpha beta (depth - 1)"
  let ?rest = "root_values g self state depth (max alpha ?v) beta as"
  show ?case
  proof (cases i)
    case 0
    have later: "\<forall>j < length as. ?rest ! j < ?v"
    proof (intro allI impI)
      fix j assume "j < length as"
      then show "?rest ! j < ?v"
        using Cons.prems(3) [rule_format, of "Suc j"] 0 by (simp add: Let_def)
    qed
    have "best_score \<le> ?v"
      using Cons.prems(4) 0 by (simp add: Let_def)
    then show ?thesis
      using 0 alpha_beta_search_loop_keep [OF later] by (simp add: Let_def)
  next
    case (Suc k)
    have k: "k < length as"
      using Cons.prems(1) Suc by simp
    have le: "\<forall>j < length as. ?rest ! j \<le> ?rest ! k"
    proof (intro allI impI)
      fix j assume "j < length as"
      then show "?rest ! j \<le> ?rest ! k"
        using Cons.prems(2) [rule_format, of "Suc j"] Suc by (simp add: Let_def)
    qed
    have lt: "\<forall>j. k < j \<and> j < length as \<longrightarrow> ?rest ! j < ?rest ! k"
    proof (intro allI impI)
      fix j assume "k < j \<and> j < length as"
      then show "?rest ! j < ?rest ! k"
        using Cons.prems(3) [rule_format, of "Suc j"] Suc by (simp add: Let_def)
    qed
    have v_le: "?v \<le> ?rest ! k"
      using Cons.prems(2) [rule_format, of 0] Suc by (simp add: Let_def)
    have bs_le: "best_score \<le> ?rest ! k"
      using Cons.prems(4) Suc by (simp add: Let_def)
    have accepted: "alpha_beta_search_loop g self state depth as (max alpha ?v) beta ?v (Action a)
               = Action (as ! k)"
      by (rule Cons.IH [OF k le lt v_le])
    have rejected:
      "alpha_beta_search_loop g self state depth as (max alpha ?v) beta best_score best_move
               = Action (as ! k)"
      by (rule Cons.IH [OF k le lt bs_le])
    show ?thesis
      using accepted rejected Suc by (simp add: Let_def)
  qed
qed

text \<open>
  What the driver does with the values returned to it: the best action is replaced
  whenever the value returned for a root action is greater than or equal to the best
  value so far, so the last of the root actions whose returned value is greatest is
  returned.
\<close>

lemma alpha_beta_search_keeps_last_tie:
  "i < length (actions g state) \<Longrightarrow>
   \<forall>j < length (actions g state).
      root_values g self state depth NegInf PosInf (actions g state) ! j
        \<le> root_values g self state depth NegInf PosInf (actions g state) ! i \<Longrightarrow>
   \<forall>j. i < j \<and> j < length (actions g state) \<longrightarrow>
      root_values g self state depth NegInf PosInf (actions g state) ! j
        < root_values g self state depth NegInf PosInf (actions g state) ! i \<Longrightarrow>
   alpha_beta_search g self state depth = Action (actions g state ! i)"
  unfolding alpha_beta_search_def
  by (rule alpha_beta_search_loop_last_max) simp_all

text \<open>
  Claim C7 states that among root actions of equal minimax value \<open>alpha_beta_search\<close>
  returns the first, the best action being replaced only by a strictly greater value.
  The driver tests \<open>v >= best_score\<close> instead: in \<open>tie_tree\<close> both root actions lead to
  a terminal position of utility 1, the unpruned search with the strict comparison
  returns the first action, and \<open>alpha_beta_search\<close> returns the second.
\<close>

theorem alpha_beta_search_tie_returns_last:
  "minimax_min (tree_game 2) player0 (result (tree_game 2) tie_tree 0) 2
     = minimax_min (tree_game 2) player0 (result (tree_game 2) tie_tree 1) 2 \<and>
   minimax_search (tree_game 2) player0 tie_tree 3 = Action 0 \<and>
   alpha_beta_search (tree_game 2) player0 tie_tree 3 = Action 1"
  by (simp add: alpha_beta_search_def minimax_search_def tree_game_def player0_def tie_tree_def
      Let_def)

subsection \<open>The first ply\<close>

text \<open>
  Claim C8: at a state with \<open>ply_count < 2\<close>, \<open>get_action\<close> puts one action on the
  channel, the legal action at the position that the random number generator draws,
  and returns without starting a search: the outcome does not depend on the search's
  parameters.  A state of the first ply has legal actions; on an empty list
  \<open>random.choice\<close> raises \<open>IndexError\<close>.
\<close>

theorem get_action_first_ply:
  "ply_count g state < 2 \<Longrightarrow> actions g state \<noteq> [] \<Longrightarrow>
   get_action g ucb rollout iter_limit r self state =
     (Inr PyNone, self\<lparr>queue := queue self @ [actions g state ! (r mod length (actions g state))]\<rparr>)
   \<and> actions g state ! (r mod length (actions g state)) \<in> set (actions g state)"
  by (simp add: get_action_def choice_def)

theorem get_action_first_ply_witness:
  "ply_count (tree_game 0) three_move_tree < 2 \<and>
   actions (tree_game 0) three_move_tree \<noteq> [] \<and>
   get_action (tree_game 0) (\<lambda>n m w. w) (\<lambda>k s. 1) 200 7 player0 three_move_tree =
     (Inr PyNone, \<lparr>player_id = 0, queue = [1]\<rparr>)"
  using get_action_first_ply [of "tree_game 0" three_move_tree "\<lambda>n m w. w" "\<lambda>k s. 1" 200 7 player0]
  by (simp add: tree_game_def player0_def three_move_tree_def)

subsection \<open>The tree of one invocation of mcts\<close>

lemma nth_list_update_if:
  "j < length xs \<Longrightarrow> xs[i := x] ! j = (if i = j then x else xs ! j)"
  by (simp add: nth_list_update)

lemma valid_path_prefix: "valid_path t (q @ q') \<Longrightarrow> valid_path t q"
  by (induction q arbitrary: t) simp_all

lemma valid_path_new_node: "valid_path (Node s [] acts v r) q \<longleftrightarrow> q = []"
  by (cases q) simp_all

lemma take_prefix_iff: "(take (length q) p = q) = (\<exists>q'. p = q @ q')"
  by (metis append_eq_conv_conj)

text \<open>Selection and expansion leave the counters of the nodes that exist unchanged.\<close>

lemma tree_policy_frame:
  "valid_path n q \<Longrightarrow>
   valid_path (snd (tree_policy g ucb n)) q \<and>
   visit_count (node_at (snd (tree_policy g ucb n)) q) = visit_count (node_at n q) \<and>
   reward_total (node_at (snd (tree_policy g ucb n)) q) = reward_total (node_at n q)"
proof (induction g ucb n arbitrary: q rule: tree_policy.induct)
  case (1 g ucb n)
  show ?case
  proof (cases q)
    case Nil
    then show ?thesis
      by (subst (1 2 3) tree_policy.simps)
         (simp split: option.splits prod.splits)
  next
    case (Cons j q1)
    then have j: "j < length (children n)" and v: "valid_path (children n ! j) q1"
      using "1.prems" by simp_all
    show ?thesis
      using j v Cons "1.IH" [of i q1 for i]
      by (subst (1 2 3) tree_policy.simps)
         (auto simp: nth_append nth_list_update_if split: option.splits prod.splits)
  qed
qed

text \<open>The node that the tree policy returns is a node of the tree it leaves.\<close>

lemma tree_policy_valid:
  "fst (tree_policy g ucb n) = Some p \<Longrightarrow> valid_path (snd (tree_policy g ucb n)) p"
proof (induction g ucb n arbitrary: p rule: tree_policy.induct)
  case (1 g ucb n)
  show ?case
    using "1.prems" "1.IH" select_child_less [of ucb n]
    by (subst tree_policy.simps, subst (asm) tree_policy.simps)
       (fastforce simp: nth_append MCTS_Node_def split: option.splits prod.splits if_splits)
qed

text \<open>
  The only node that the tree policy adds is the one it returns, with visit count 1
  and reward total 0.
\<close>

lemma tree_policy_new:
  "valid_path (snd (tree_policy g ucb n)) q \<Longrightarrow> \<not> valid_path n q \<Longrightarrow>
   fst (tree_policy g ucb n) = Some q \<and>
   visit_count (node_at (snd (tree_policy g ucb n)) q) = 1 \<and>
   reward_total (node_at (snd (tree_policy g ucb n)) q) = 0"
proof (induction g ucb n arbitrary: q rule: tree_policy.induct)
  case (1 g ucb n)
  show ?case
  proof (cases q)
    case Nil
    then show ?thesis
      using "1.prems" by simp
  next
    case (Cons j q1)
    show ?thesis
      using "1.prems" Cons "1.IH" [of i q1 for i]
      by (subst (1 2 3) tree_policy.simps, subst (asm) tree_policy.simps)
         (auto simp: nth_append nth_list_update_if MCTS_Node_def valid_path_new_node
           split: option.splits prod.splits if_splits)
  qed
qed

text \<open>Backpropagation along a path of the tree.\<close>

lemma backup_up_root:
  "valid_path n p \<Longrightarrow>
   snd (backup_up p r n) = - ((- 1) ^ length p * r) \<and>
   node_state (fst (backup_up p r n)) = node_state n \<and>
   length (children (fst (backup_up p r n))) = length (children n) \<and>
   children_actions (fst (backup_up p r n)) = children_actions n \<and>
   visit_count (fst (backup_up p r n)) = visit_count n + 1 \<and>
   reward_total (fst (backup_up p r n)) = reward_total n + (- 1) ^ length p * r"
proof (induction p arbitrary: n)
  case Nil
  then show ?case by simp
next
  case (Cons i p)
  then have "valid_path (children n ! i) p" and "i < length (children n)"
    by simp_all
  then show ?case
    using Cons.IH [of "children n ! i"]
    by (simp add: case_prod_unfold)
qed

lemma backup_children:
  "children (backup [] r n) = children n"
  "children (backup (i # p) r n) =
     (if i < length (children n) then (children n)[i := backup p r (children n ! i)]
      else children n)"
  by (simp_all add: backup_def case_prod_unfold)

lemma valid_path_backup: "valid_path (backup p r t) q = valid_path t q"
proof (induction q arbitrary: p t)
  case Nil
  then show ?case by simp
next
  case (Cons j q)
  show ?case
  proof (cases p)
    case Nil
    then show ?thesis by (simp add: backup_children)
  next
    case (Cons i p')
    then show ?thesis
      using Cons.IH [of p' "children t ! j"]
      by (auto simp: backup_children nth_list_update_if split: if_splits)
  qed
qed

lemma backup_on_path:
  "valid_path t (q @ q') \<Longrightarrow>
   visit_count (node_at (backup (q @ q') r t) q) = visit_count (node_at t q) + 1 \<and>
   reward_total (node_at (backup (q @ q') r t) q)
     = reward_total (node_at t q) + (- 1) ^ length q' * r"
proof (induction q arbitrary: t)
  case Nil
  then show ?case
    using backup_up_root [of t q' r] by (simp add: backup_def)
next
  case (Cons i q)
  then have i: "i < length (children t)" and v: "valid_path (children t ! i) (q @ q')"
    by simp_all
  show ?case
    using Cons.IH [OF v] i by (simp add: backup_children)
qed

lemma backup_off_path:
  "valid_path t q \<Longrightarrow> \<not> (\<exists>q'. p = q @ q') \<Longrightarrow>
   visit_count (node_at (backup p r t) q) = visit_count (node_at t q) \<and>
   reward_total (node_at (backup p r t) q) = reward_total (node_at t q)"
proof (induction q arbitrary: t p)
  case Nil
  then show ?case by simp
next
  case (Cons j q)
  then have j: "j < length (children t)" and v: "valid_path (children t ! j) q"
    by simp_all
  show ?case
  proof (cases p)
    case Nil
    then show ?thesis
      using j by (simp add: backup_children)
  next
    case (Cons i p')
    show ?thesis
    proof (cases "i = j")
      case True
      have "\<not> (\<exists>q'. p' = q @ q')"
        using Cons.prems(2) Cons True by simp
      then show ?thesis
        using Cons.IH [OF v, of p'] j True Cons by (simp add: backup_children)
    next
      case False
      then show ?thesis
        using j Cons by (simp add: backup_children)
    qed
  qed
qed

text \<open>
  The counters of a node after a run of the loop, from any tree to start with: a node
  that the run creates starts from visit count 1 and reward total 0.
\<close>

lemma mcts_loop_invariant:
  "valid_path (mcts_loop g ucb rollout ks t) q \<Longrightarrow>
   visit_count (node_at (mcts_loop g ucb rollout ks t) q)
     = (if valid_path t q then visit_count (node_at t q) else 1)
       + rollouts_attributed g ucb rollout ks t q \<and>
   reward_total (node_at (mcts_loop g ucb rollout ks t) q)
     = (if valid_path t q then reward_total (node_at t q) else 0)
       + reward_attributed g ucb rollout ks t q"
proof (induction ks arbitrary: t)
  case Nil
  then show ?case by simp
next
  case (Cons k ks)
  obtain po t1 where tp: "tree_policy g ucb t = (po, t1)"
    by (cases "tree_policy g ucb t")
  have frame: "valid_path t q \<Longrightarrow> valid_path t1 q \<and>
      visit_count (node_at t1 q) = visit_count (node_at t q) \<and>
      reward_total (node_at t1 q) = reward_total (node_at t q)"
    using tree_policy_frame [of t q g ucb] tp by simp
  have new: "valid_path t1 q \<Longrightarrow> \<not> valid_path t q \<Longrightarrow>
      po = Some q \<and> visit_count (node_at t1 q) = 1 \<and> reward_total (node_at t1 q) = 0"
    using tree_policy_new [of g ucb t q] tp by simp
  show ?case
  proof (cases po)
    case None
    have v: "valid_path (mcts_loop g ucb rollout ks t1) q"
      using Cons.prems tp None by simp
    show ?thesis
      using Cons.IH [OF v] tp None frame new by auto
  next
    case (Some p)
    define r where "r = rollout k (node_state (node_at t1 p))"
    define t2 where "t2 = backup p r t1"
    have vp: "valid_path t1 p"
      using tree_policy_valid [of g ucb t p] tp Some by simp
    have v: "valid_path (mcts_loop g ucb rollout ks t2) q"
      using Cons.prems tp Some by (simp add: t2_def r_def Let_def)
    have v2: "valid_path t2 q = valid_path t1 q"
      by (simp add: t2_def valid_path_backup)
    have on: "\<And>q'. p = q @ q' \<Longrightarrow>
        visit_count (node_at t2 q) = visit_count (node_at t1 q) + 1 \<and>
        reward_total (node_at t2 q) = reward_total (node_at t1 q) + (- 1) ^ length q' * r"
      using backup_on_path [of t1 q _ r] vp by (simp add: t2_def)
    have off: "valid_path t1 q \<Longrightarrow> \<not> (\<exists>q'. p = q @ q') \<Longrightarrow>
        visit_count (node_at t2 q) = visit_count (node_at t1 q) \<and>
        reward_total (node_at t2 q) = reward_total (node_at t1 q)"
      using backup_off_path [of t1 q p r] by (simp add: t2_def)
    have pre: "\<not> valid_path t1 q \<Longrightarrow> \<not> (\<exists>q'. p = q @ q')"
      using vp valid_path_prefix by blast
    have step_v: "rollouts_attributed g ucb rollout (k # ks) t q
        = (if \<exists>q'. p = q @ q' then 1 else 0) + rollouts_attributed g ucb rollout ks t2 q"
      using tp Some by (simp add: t2_def r_def take_prefix_iff Let_def)
    have step_r: "reward_attributed g ucb rollout (k # ks) t q
        = (if \<exists>q'. p = q @ q' then (- 1) ^ (length p - length q) * r else 0)
          + reward_attributed g ucb rollout ks t2 q"
      using tp Some by (simp add: t2_def r_def take_prefix_iff Let_def)
    have final: "mcts_loop g ucb rollout (k # ks) t = mcts_loop g ucb rollout ks t2"
      using tp Some by (simp add: t2_def r_def Let_def)
    show ?thesis
    proof (cases "valid_path t1 q")
      case False
      then have "\<not> valid_path t q"
        using frame by blast
      then show ?thesis
        using Cons.IH [OF v] False v2 pre step_v step_r final by simp
    next
      case True
      show ?thesis
      proof (cases "\<exists>q'. p = q @ q'")
        case ex: True
        then obtain q' where q': "p = q @ q'" by blast
        show ?thesis
        proof (cases "valid_path t q")
          case True
          then show ?thesis
            using Cons.IH [OF v] \<open>valid_path t1 q\<close> v2 on [OF q'] frame step_v step_r final ex q'
            by simp
        next
          case False
          then have "p = q"
            using new [OF \<open>valid_path t1 q\<close>] Some by simp
          then show ?thesis
            using Cons.IH [OF v] \<open>valid_path t1 q\<close> v2 on [of "[]"] new False step_v step_r final
            by simp
        qed
      next
        case nex: False
        have "valid_path t q"
          using new [OF True] nex Some by auto
        then show ?thesis
          using Cons.IH [OF v] True v2 off [OF True nex] frame step_v step_r final nex
          by simp
      qed
    qed
  qed
qed

text \<open>
  Claim C9 states that a node's reward total is never decremented.  Backpropagation
  adds the rollout's reward with its sign flipped at each level: after one iteration
  on \<open>one_move_tree\<close> with a rollout reward of 1, the new child has reward total 1 and
  the root has reward total -1, below the 0 it started from.
\<close>

theorem reward_total_decreases:
  "reward_total (mcts_loop (tree_game 2) (\<lambda>n m w. w) (\<lambda>k s. 1) [0] (MCTS_Node one_move_tree))
     < reward_total (MCTS_Node one_move_tree :: (gtree, nat) mcts_node)"
  by (simp add: tree_policy.simps tree_game_def one_move_tree_def MCTS_Node_def backup_def Let_def)

text \<open>
  Claim C9 as amended: throughout one invocation of \<open>mcts\<close>, the visit count of every
  node of the tree is 1 plus the number of rollouts attributed to it, and its reward
  total is the sum of the rewards of these rollouts, each with the sign that
  backpropagation gives it at the node's level.  The reward total is therefore changed
  by backpropagation only, and it can decrease.
\<close>

theorem mcts_node_invariant:
  "valid_path (mcts_loop g ucb rollout ks (MCTS_Node s)) q \<Longrightarrow>
   visit_count (node_at (mcts_loop g ucb rollout ks (MCTS_Node s)) q)
     = 1 + rollouts_attributed g ucb rollout ks (MCTS_Node s) q \<and>
   reward_total (node_at (mcts_loop g ucb rollout ks (MCTS_Node s)) q)
     = reward_attributed g ucb rollout ks (MCTS_Node s) q"
  using mcts_loop_invariant [of g ucb rollout ks "MCTS_Node s" q]
  by (cases q) (simp_all add: MCTS_Node_def)

theorem mcts_node_invariant_witness:
  "valid_path
     (mcts_loop (tree_game 2) (\<lambda>n m w. w) (\<lambda>k s. 1) [0, 1, 2] (MCTS_Node one_move_tree)) [0] \<and>
   rollouts_attributed (tree_game 2) (\<lambda>n m w. w) (\<lambda>k s. 1) [0, 1, 2] (MCTS_Node one_move_tree) [0]
     = 3 \<and>
   visit_count (node_at
     (mcts_loop (tree_game 2) (\<lambda>n m w. w) (\<lambda>k s. 1) [0, 1, 2] (MCTS_Node one_move_tree)) [0])
     = 4"
proof -
  have run: "mcts_loop (tree_game 2) (\<lambda>n m w. w) (\<lambda>k s. 1) [0, 1, 2] (MCTS_Node one_move_tree)
      = Node one_move_tree [Node (Terminal 1) [] [] 4 3] [0] 4 (- 3)"
    by (simp add: tree_policy.simps tree_game_def one_move_tree_def MCTS_Node_def backup_def
        Let_def select_child_def)
  have valid: "valid_path
     (mcts_loop (tree_game 2) (\<lambda>n m w. w) (\<lambda>k s. 1) [0, 1, 2] (MCTS_Node one_move_tree)) [0]"
    unfolding run by simp
  have count:
    "rollouts_attributed (tree_game 2) (\<lambda>n m w. w) (\<lambda>k s. 1) [0, 1, 2] (MCTS_Node one_move_tree) [0]
      = 3"
    by (simp add: tree_policy.simps tree_game_def one_move_tree_def MCTS_Node_def backup_def
        Let_def select_child_def)
  have visits: "visit_count (node_at
     (mcts_loop (tree_game 2) (\<lambda>n m w. w) (\<lambda>k s. 1) [0, 1, 2] (MCTS_Node one_move_tree)) [0])
     = 1 + rollouts_attributed (tree_game 2) (\<lambda>n m w. w) (\<lambda>k s. 1) [0, 1, 2]
             (MCTS_Node one_move_tree) [0]"
    using mcts_node_invariant [OF valid] by (rule conjunct1)
  show ?thesis
    unfolding visits count using valid by simp
qed

subsection \<open>Termination of the search\<close>

lemma value_dom_all: "All max_value_max_value_loop_min_value_min_value_loop_dom"
  apply (relation "inv_image (less_than <*lex*> less_than)
     (\<lambda>x. case x of
        Inl (Inl (g, self, s, al, be, d)) \<Rightarrow> (2 * nat d, 0)
      | Inl (Inr (g, self, s, al, be, d, as, v)) \<Rightarrow> (2 * nat (d - 1) + 1, length as)
      | Inr (Inl (g, self, s, al, be, d)) \<Rightarrow> (2 * nat d, 0)
      | Inr (Inr (g, self, s, al, be, d, as, v)) \<Rightarrow> (2 * nat (d - 1) + 1, length as))")
  apply auto
  done

lemma negamax_dom_all: "All NegamaxAlphaBeta_loop_dom"
  by (relation "measure (\<lambda>(g, self, s, d, as, al, be, bs, bm). length as)") auto

text \<open>
  Claim C10: for every game state, every depth and all bounds, the calls of
  \<open>max_value\<close>, \<open>min_value\<close> and \<open>NegamaxAlphaBeta\<close> terminate.  A recursive call is
  made only from the loop of a non-terminal state with \<open>depth > 0\<close>, with \<open>depth - 1\<close>,
  and each loop visits the finitely many actions of its state once;
  \<open>NegamaxAlphaBeta\<close> itself calls \<open>min_value\<close> once for each action it visits.
\<close>

theorem search_terminates:
  "max_value_terminates g self state alpha beta depth \<and>
   min_value_terminates g self state alpha beta depth \<and>
   NegamaxAlphaBeta_terminates g self state depth"
  unfolding max_value_terminates_def min_value_terminates_def NegamaxAlphaBeta_terminates_def
  by (intro conjI value_dom_all [THEN spec] negamax_dom_all [THEN spec])

end
